theory Spec2Isabelle
  imports Main "HOL-Library.Sublist" "HOL-Library.AList"
begin

section \<open>JavaScript preliminaries\<close>

text \<open>
  Strings are lists of characters. A thrown value is either a bare string
  (\<^verbatim>\<open>throw '...'\<close>), an \<^verbatim>\<open>Error\<close> object built with a message, or a
  \<^verbatim>\<open>TypeError\<close> raised by the runtime itself (calling a non-function, reading a
  property of \<^verbatim>\<open>undefined\<close>, \<^verbatim>\<open>apply\<close> on a primitive).
\<close>

datatype error = Throw string | Error string | TypeError

text \<open>
  An object used as a dictionary is the list of its own enumerable properties in
  enumeration order (the order of \<^verbatim>\<open>Object.keys\<close>): the keys that are array
  indices in ascending order, then the other keys in the order they were created.
  The first binding of a key is the property. Objects created by a literal inherit
  from \<^verbatim>\<open>Object.prototype\<close>, whose properties are all truthy (functions, or the
  prototype object itself).
\<close>

type_synonym 'v object = "(string \<times> 'v) list"

definition hasOwnProperty :: "'v object \<Rightarrow> string \<Rightarrow> bool" where
  "hasOwnProperty obj k = (map_of obj k \<noteq> None)"

definition Object_keys :: "'v object \<Rightarrow> string list" where
  "Object_keys obj = map fst obj"

definition Object_prototype :: "string list" where
  "Object_prototype =
     [''constructor'', ''hasOwnProperty'', ''isPrototypeOf'', ''propertyIsEnumerable'',
      ''toLocaleString'', ''toString'', ''valueOf'', ''__proto__'',
      ''__defineGetter__'', ''__defineSetter__'', ''__lookupGetter__'', ''__lookupSetter__'']"

text \<open>The result of reading \<^verbatim>\<open>obj[k]\<close> on an object literal.\<close>

datatype 'v property = Undefined | Own 'v | Inherited

definition get_property :: "'v object \<Rightarrow> string \<Rightarrow> 'v property" where
  "get_property obj k =
     (case map_of obj k of
        Some v \<Rightarrow> Own v
      | None \<Rightarrow> if k \<in> set Object_prototype then Inherited else Undefined)"

text \<open>
  An array index is the canonical decimal numeral of a number below \<open>2\<^sup>3\<^sup>2 - 1\<close>.
\<close>

definition arrayIndex :: "string \<Rightarrow> nat option" where
  "arrayIndex k =
     (if k \<noteq> [] \<and> list_all (\<lambda>c. c \<in> set ''0123456789'') k \<and> (k = ''0'' \<or> hd k \<noteq> CHR ''0'')
      then (let n = foldl (\<lambda>acc c. acc * 10 + (of_char c - 48)) 0 k
            in if n < 4294967295 then Some n else None)
      else None)"

text \<open>
  \<^verbatim>\<open>obj[k] = v\<close>: an own property keeps its place; a new array index goes
  among the array indices, by value, and any other new key to the end.
\<close>

fun insertIndexed :: "nat \<Rightarrow> string \<Rightarrow> 'v \<Rightarrow> 'v object \<Rightarrow> 'v object" where
  "insertIndexed n k v [] = [(k, v)]"
| "insertIndexed n k v ((k', v') # obj) =
     (case arrayIndex k' of
        Some n' \<Rightarrow> if n' < n then (k', v') # insertIndexed n k v obj else (k, v) # (k', v') # obj
      | None \<Rightarrow> (k, v) # (k', v') # obj)"

definition setProperty :: "string \<Rightarrow> 'v \<Rightarrow> 'v object \<Rightarrow> 'v object" where
  "setProperty k v obj =
     (if hasOwnProperty obj k then AList.update k v obj
      else case arrayIndex k of
             None \<Rightarrow> obj @ [(k, v)]
           | Some n \<Rightarrow> insertIndexed n k v obj)"

text \<open>
  A property key that is \<^verbatim>\<open>undefined\<close> is converted to the string
  \<^verbatim>\<open>"undefined"\<close> before the lookup.
\<close>

definition toPropertyKey :: "string option \<Rightarrow> string" where
  "toPropertyKey k = (case k of None \<Rightarrow> ''undefined'' | Some s \<Rightarrow> s)"

text \<open>
  \<^verbatim>\<open>str.indexOf(searchString)\<close>: the position of the first occurrence, \<open>None\<close>
  for \<^verbatim>\<open>-1\<close>.
\<close>

fun indexOf :: "string \<Rightarrow> string \<Rightarrow> nat option" where
  "indexOf [] s = (if s = [] then Some 0 else None)"
| "indexOf (c # cs) s =
     (if prefix s (c # cs) then Some 0 else map_option Suc (indexOf cs s))"

text \<open>
  The replacement text of \<^verbatim>\<open>String.prototype.replace\<close> when the pattern is a string
  (no capture groups): \<^verbatim>\<open>$$\<close> stands for a dollar sign, \<^verbatim>\<open>$&\<close> for the matched
  text, a dollar sign followed by a backquote for the text before the match and a
  dollar sign followed by an apostrophe for the text after it. Every other
  character, and a dollar sign followed by anything else, is copied.
\<close>

fun getSubstitution :: "string \<Rightarrow> string \<Rightarrow> nat \<Rightarrow> string \<Rightarrow> string" where
  "getSubstitution matched str position [] = []"
| "getSubstitution matched str position [c] = [c]"
| "getSubstitution matched str position (c # d # r) =
     (if c = CHR ''$'' \<and> d = CHR ''$'' then CHR ''$'' # getSubstitution matched str position r
      else if c = CHR ''$'' \<and> d = CHR ''&'' then matched @ getSubstitution matched str position r
      else if c = CHR ''$'' \<and> d = CHR 0x60 then
        take position str @ getSubstitution matched str position r
      else if c = CHR ''$'' \<and> d = CHR 0x27 then
        drop (position + length matched) str @ getSubstitution matched str position r
      else c # getSubstitution matched str position (d # r))"

text \<open>\<^verbatim>\<open>str.replace(searchValue, replaceValue)\<close> with a string pattern: the first
  occurrence only.\<close>

definition replace :: "string \<Rightarrow> string \<Rightarrow> string \<Rightarrow> string" where
  "replace str searchValue replaceValue =
     (case indexOf str searchValue of
        None \<Rightarrow> str
      | Some position \<Rightarrow>
          take position str @ getSubstitution searchValue str position replaceValue
            @ drop (position + length searchValue) str)"

section \<open>utils\<close>

subsection \<open>flatten\<close>

text \<open>A code fragment argument is a string or a (nested) array of fragments.\<close>

datatype fragment = Str string | Arr "fragment list"

text \<open>\<^verbatim>\<open>fragments.concat(v)\<close> appends the elements of an array, and any other
  value as one element.\<close>

definition concat_js :: "fragment list \<Rightarrow> fragment \<Rightarrow> fragment list" where
  "concat_js fragments v = (case v of Arr ys \<Rightarrow> fragments @ ys | Str s \<Rightarrow> fragments @ [Str s])"

fun flatten :: "fragment \<Rightarrow> fragment" where
  "flatten (Str s) = Str s"
| "flatten (Arr xs) = Arr (foldl (\<lambda>fragments arg. concat_js fragments (flatten arg)) [] xs)"

text \<open>\<^verbatim>\<open>array.join(sep)\<close>; an element that is itself an array is converted by
  joining it with commas.\<close>

fun join_with :: "string \<Rightarrow> string list \<Rightarrow> string" where
  "join_with sep [] = []"
| "join_with sep [x] = x"
| "join_with sep (x # y # r) = x @ sep @ join_with sep (y # r)"

fun toString_fragment :: "fragment \<Rightarrow> string" where
  "toString_fragment (Str s) = s"
| "toString_fragment (Arr xs) = join_with '','' (map toString_fragment xs)"

definition join :: "fragment \<Rightarrow> string \<Rightarrow> string" where
  "join v sep = (case v of Arr xs \<Rightarrow> join_with sep (map toString_fragment xs) | Str s \<Rightarrow> s)"

subsection \<open>inject\<close>

text \<open>
  The document, as far as \<^verbatim>\<open>inject\<close> sees it: the text content of its script
  tags in document order, and the position of \<^verbatim>\<open>document.currentScript\<close> among
  them (\<open>None\<close> when it is \<^verbatim>\<open>null\<close>).
\<close>

record document =
  scriptTags :: "string list"
  currentScript :: "nat option"

text \<open>The loop over the script tags, from index \<open>i\<close>: the index and text of the
  first tag that matches the search string and is not the current script.\<close>

fun findScriptTag :: "string \<Rightarrow> nat option \<Rightarrow> nat \<Rightarrow> string list \<Rightarrow> (nat \<times> string) option" where
  "findScriptTag searchString cur i [] = None"
| "findScriptTag searchString cur i (textContent # tags) =
     (let matchesSearch = (indexOf textContent searchString \<noteq> None);
          isCurrentScript = (cur = Some i)
      in if matchesSearch \<and> \<not> isCurrentScript then Some (i, textContent)
         else findScriptTag searchString cur (Suc i) tags)"

text \<open>
  \<^verbatim>\<open>inject(searchString, ...codeToInject)\<close>. The variable \<^verbatim>\<open>code\<close> stays
  \<^verbatim>\<open>undefined\<close> when the loop finds nothing; \<^verbatim>\<open>!code\<close> also holds for the empty
  string. The new script tag takes the place of the old one.
\<close>

definition notFound :: "string \<Rightarrow> string" where
  "notFound searchString = ''Couldn't find \"'' @ searchString @ ''\" in script tags''"

definition inject :: "string \<Rightarrow> fragment list \<Rightarrow> document \<Rightarrow> error \<times> document + document" where
  "inject searchString args doc =
     (let codeToInject = join (flatten (Arr args)) [] in
      case findScriptTag searchString (currentScript doc) 0 (scriptTags doc) of
        None \<Rightarrow> Inl (Throw (notFound searchString), doc)
      | Some (i, code) \<Rightarrow>
          if code = [] then
            Inl (Throw (notFound searchString), doc)
          else
            Inr (doc\<lparr>scriptTags :=
                   (scriptTags doc)[i := replace code searchString (searchString @ codeToInject)]\<rparr>))"

subsection \<open>getImage\<close>

record animation =
  frameCount :: nat
  isAnimated :: bool
  frameIndex :: nat

record drawing =
  name :: "string option"
  drw :: string
  col :: int
  animation :: animation

text \<open>
  The local \<^verbatim>\<open>id\<close> of \<^verbatim>\<open>getImage\<close>: the key itself when it is an own property,
  else the first key whose entry has that name, else \<^verbatim>\<open>undefined\<close>. The call
  \<^verbatim>\<open>map.hasOwnProperty(name)\<close> reaches the inherited method only when the map has
  no own property of that name; an own one is a drawing, and calling it raises.
\<close>

definition getImage_id :: "string \<Rightarrow> drawing object \<Rightarrow> error + string option" where
  "getImage_id nm m =
     (if hasOwnProperty m ''hasOwnProperty'' then Inl TypeError
      else if hasOwnProperty m nm then Inr (Some nm)
      else Inr (List.find (\<lambda>e. case map_of m e of Some d \<Rightarrow> name d = Some nm | None \<Rightarrow> False)
                  (Object_keys m)))"

definition getImage :: "string \<Rightarrow> drawing object \<Rightarrow> error + drawing option" where
  "getImage nm m =
     (case getImage_id nm m of
        Inl e \<Rightarrow> Inl e
      | Inr k \<Rightarrow> Inr (map_of m (toPropertyKey k)))"


section \<open>kitsy-script-toolkit\<close>

subsection \<open>Function values and the shared registry\<close>

text \<open>
  The function values this script stores and calls: a function defined elsewhere
  (the engine's, or another script's callback), known by a name, and the closures
  the script itself creates. Each closure carries what it captured.
\<close>

datatype fn =
    Host string
  | LoadGameRewrite string
  | RunDeferred string fn
  | ClearDeferred string
  | DoAllInjections "fn option"
  | HookWrapper nat "fn list"
  | EditImage
  | EditPalette

text \<open>
  \<^verbatim>\<open>f.length\<close>, the number of declared parameters: read off the source for the
  closures, given by \<open>hostLength\<close> for the others.
\<close>

fun fn_length :: "(string \<Rightarrow> nat) \<Rightarrow> fn \<Rightarrow> nat" where
  "fn_length hostLength (Host h) = hostLength h"
| "fn_length hostLength (LoadGameRewrite tag) = 2"
| "fn_length hostLength (RunDeferred tag f) = 0"
| "fn_length hostLength (ClearDeferred tag) = 0"
| "fn_length hostLength (DoAllInjections oldStartFunc) = 0"
| "fn_length hostLength (HookWrapper superFnLength fs) = 0"
| "fn_length hostLength EditImage = 3"
| "fn_length hostLength EditPalette = 3"

text \<open>
  A property of \<^verbatim>\<open>queuedBeforeScripts\<close> or \<^verbatim>\<open>queuedAfterScripts\<close> holds an array
  of callbacks. After \<^verbatim>\<open>q[name] = q[name] || []\<close> with a name inherited from
  \<^verbatim>\<open>Object.prototype\<close> it holds the inherited function instead.
\<close>

datatype slot = Queue "fn list" | ProtoFn string

text \<open>The interpreter's environment object, by reference; a queued call of
  a deferred dialog tag is the object \<^verbatim>\<open>{e: e, p: p}\<close>.\<close>

type_synonym environment = nat
type_synonym deferred = "environment \<times> string list"

record kitsy =
  queuedInjectScripts :: "(string \<times> fragment) list"
  queuedBeforeScripts :: "slot object"
  queuedAfterScripts :: "slot object"
  dialogFunctions :: "fn object option"
  deferredDialogFunctions :: "deferred list object option"

text \<open>
  The global object, as far as the toolkit uses it: the registry \<^verbatim>\<open>bitsy.kitsy\<close>,
  the function-valued properties \<^verbatim>\<open>bitsy[name]\<close> (own or inherited), the document,
  and two observations: how often the engine's script and dialog objects were
  recreated, and which functions were called to start the game.
\<close>

record bitsy =
  kitsy :: "kitsy option"
  globals :: "string \<Rightarrow> fn option"
  document :: document
  reinits :: nat
  started :: "fn list"

subsection \<open>kitsyInit and the registration functions\<close>

definition kitsyInit :: "bitsy \<Rightarrow> kitsy \<times> bitsy" where
  "kitsyInit b =
     (case kitsy b of
        Some k \<Rightarrow> (k, b)
      | None \<Rightarrow>
          let k = \<lparr>queuedInjectScripts = [], queuedBeforeScripts = [], queuedAfterScripts = [],
                   dialogFunctions = None, deferredDialogFunctions = None\<rparr>;
              oldStartFunc = globals b ''startExportedGame''
          in (k, b\<lparr>kitsy := Some k,
                   globals := (globals b)(''startExportedGame'' \<mapsto> DoAllInjections oldStartFunc)\<rparr>))"


text \<open>
  \<^verbatim>\<open>q[name] = q[name] || []; q[name].push(f)\<close>. For an inherited name the
  assignment stores the inherited function as an own property (for
  \<^verbatim>\<open>__proto__\<close> it stores nothing) and the call of its missing \<^verbatim>\<open>push\<close> raises.
\<close>

definition enqueue :: "slot object \<Rightarrow> string \<Rightarrow> fn \<Rightarrow> error \<times> slot object + slot object" where
  "enqueue q targetFuncName f =
     (case get_property q targetFuncName of
        Own (Queue fs) \<Rightarrow> Inr (setProperty targetFuncName (Queue (fs @ [f])) q)
      | Own (ProtoFn p) \<Rightarrow> Inl (TypeError, q)
      | Undefined \<Rightarrow> Inr (setProperty targetFuncName (Queue [f]) q)
      | Inherited \<Rightarrow>
          Inl (TypeError,
               if targetFuncName = ''__proto__'' then q
               else setProperty targetFuncName (ProtoFn targetFuncName) q))"

definition before :: "string \<Rightarrow> fn \<Rightarrow> bitsy \<Rightarrow> error \<times> bitsy + bitsy" where
  "before targetFuncName beforeFn b =
     (let (k, b1) = kitsyInit b in
      case enqueue (queuedBeforeScripts k) targetFuncName beforeFn of
        Inl (e, q) \<Rightarrow> Inl (e, b1\<lparr>kitsy := Some (k\<lparr>queuedBeforeScripts := q\<rparr>)\<rparr>)
      | Inr q \<Rightarrow> Inr (b1\<lparr>kitsy := Some (k\<lparr>queuedBeforeScripts := q\<rparr>)\<rparr>))"


subsection \<open>Injections and hooks at game start\<close>

text \<open>
  \<^verbatim>\<open>_reinitEngine\<close> constructs the engine's script and dialog modules anew; the
  constructors \<^verbatim>\<open>bitsy.Script\<close> and \<^verbatim>\<open>bitsy.Dialog\<close> must exist.
\<close>

definition reinitEngine :: "bitsy \<Rightarrow> error \<times> bitsy + bitsy" where
  "reinitEngine b =
     (if globals b ''Script'' = None \<or> globals b ''Dialog'' = None then Inl (TypeError, b)
      else Inr (b\<lparr>reinits := reinits b + 1\<rparr>))"

text \<open>The \<^verbatim>\<open>forEach\<close> of \<^verbatim>\<open>doInjects\<close>: an exception ends it, and the tags
  patched so far stay patched.\<close>

fun injectAll :: "(string \<times> fragment) list \<Rightarrow> document \<Rightarrow> error \<times> document + document" where
  "injectAll [] doc = Inr doc"
| "injectAll ((searchString, codeFragments) # rest) doc =
     (case inject searchString [codeFragments] doc of
        Inl (e, doc') \<Rightarrow> Inl (e, doc')
      | Inr doc' \<Rightarrow> injectAll rest doc')"

definition doInjects :: "bitsy \<Rightarrow> error \<times> bitsy + bitsy" where
  "doInjects b =
     (case kitsy b of
        None \<Rightarrow> Inl (TypeError, b)
      | Some k \<Rightarrow>
          (case injectAll (queuedInjectScripts k) (document b) of
             Inl (e, doc) \<Rightarrow> Inl (e, b\<lparr>document := doc\<rparr>)
           | Inr doc \<Rightarrow> reinitEngine (b\<lparr>document := doc\<rparr>)))"

text \<open>\<^verbatim>\<open>unique\<close> keeps the first occurrence of each element.\<close>

fun position :: "'a list \<Rightarrow> 'a \<Rightarrow> nat" where
  "position [] x = 0"
| "position (y # ys) x = (if y = x then 0 else Suc (position ys x))"

definition unique :: "'a list \<Rightarrow> 'a list" where
  "unique array = map snd (filter (\<lambda>(idx, item). position array item = idx) (enumerate 0 array))"

text \<open>
  What \<^verbatim>\<open>functions.concat(q[functionName] || [])\<close> appends: the queued callbacks,
  or the one inherited function when the property is not an array.
\<close>

definition queued :: "slot object \<Rightarrow> string \<Rightarrow> fn list" where
  "queued q functionName =
     (case get_property q functionName of
        Own (Queue fs) \<Rightarrow> fs
      | Own (ProtoFn p) \<Rightarrow> [Host (''Object.prototype.'' @ p)]
      | Inherited \<Rightarrow> [Host (''Object.prototype.'' @ functionName)]
      | Undefined \<Rightarrow> [])"

text \<open>
  \<^verbatim>\<open>applyHook\<close>: the wrapper installed at \<^verbatim>\<open>bitsy[functionName]\<close> closes over the
  length of the original function and the list of functions to run. Reading the
  length of a missing function raises.
\<close>

definition applyHook :: "(string \<Rightarrow> nat) \<Rightarrow> string \<Rightarrow> bitsy \<Rightarrow> error \<times> bitsy + bitsy" where
  "applyHook hostLength functionName b =
     (case kitsy b of
        None \<Rightarrow> Inl (TypeError, b)
      | Some k \<Rightarrow>
          (case globals b functionName of
             None \<Rightarrow> Inl (TypeError, b)
           | Some superFn \<Rightarrow>
               let superFnLength = fn_length hostLength superFn;
                   functions = queued (queuedBeforeScripts k) functionName @ [superFn]
                                 @ queued (queuedAfterScripts k) functionName
               in Inr (b\<lparr>globals := (globals b)
                          (functionName \<mapsto> HookWrapper superFnLength functions)\<rparr>)))"

fun applyHooks :: "(string \<Rightarrow> nat) \<Rightarrow> string list \<Rightarrow> bitsy \<Rightarrow> error \<times> bitsy + bitsy" where
  "applyHooks hostLength [] b = Inr b"
| "applyHooks hostLength (functionName # rest) b =
     (case applyHook hostLength functionName b of
        Inl (e, b') \<Rightarrow> Inl (e, b')
      | Inr b' \<Rightarrow> applyHooks hostLength rest b')"

definition applyAllHooks :: "(string \<Rightarrow> nat) \<Rightarrow> bitsy \<Rightarrow> error \<times> bitsy + bitsy" where
  "applyAllHooks hostLength b =
     (case kitsy b of
        None \<Rightarrow> Inl (TypeError, b)
      | Some k \<Rightarrow>
          applyHooks hostLength
            (unique (Object_keys (queuedBeforeScripts k) @ Object_keys (queuedAfterScripts k))) b)"



subsection \<open>Dialog tags\<close>

definition alreadyExists :: "string \<Rightarrow> string" where
  "alreadyExists tag = ''The dialog function \"'' @ tag @ ''\" already exists.''"

text \<open>
  \<^verbatim>\<open>addDialogFunction\<close>. The test \<^verbatim>\<open>kitsy.dialogFunctions[tag]\<close> is true for a
  registered function and for a property inherited from \<^verbatim>\<open>Object.prototype\<close>.
\<close>

definition addDialogFunction :: "string \<Rightarrow> fn \<Rightarrow> bitsy \<Rightarrow> error \<times> bitsy + bitsy" where
  "addDialogFunction tag f b =
     (let (k, b1) = kitsyInit b;
          dfs = (case dialogFunctions k of None \<Rightarrow> [] | Some d \<Rightarrow> d);
          b2 = b1\<lparr>kitsy := Some (k\<lparr>dialogFunctions := Some dfs\<rparr>)\<rparr>
      in (case get_property dfs tag of
            Own g \<Rightarrow> Inl (Error (alreadyExists tag), b2)
          | Inherited \<Rightarrow> Inl (Error (alreadyExists tag), b2)
          | Undefined \<Rightarrow>
              (case before ''load_game'' (LoadGameRewrite tag) b2 of
                 Inl (e, b3) \<Rightarrow> Inl (e, b3)
               | Inr b3 \<Rightarrow>
                   Inr (b3\<lparr>kitsy := map_option
                         (\<lambda>k3. k3\<lparr>dialogFunctions := Some (setProperty tag f dfs)\<rparr>) (kitsy b3)\<rparr>))))"








subsection \<open>The wrapper installed by applyHook\<close>

text \<open>
  Argument values are of any type \<open>'a\<close>; the continuation \<^verbatim>\<open>runBefore.bind(this)\<close>
  is a value of its own. A function returns a value, of which the wrapper uses
  the kind only (falsy; a truthy primitive; an object, with the elements
  \<^verbatim>\<open>apply\<close> reads from it: those of an array, none for an object without a
  length), or it throws. Calling it may change the rest of the program's state,
  \<open>'w\<close>.
\<close>

datatype 'a arg = Arg 'a | Continuation

datatype 'a retval = Falsy | Primitive | ArrayLike "'a arg list"

datatype 'a completion = Normal "'a retval" | Abrupt error

text \<open>
  One call of the wrapper has the variables \<^verbatim>\<open>i\<close> and \<^verbatim>\<open>args\<close>; every
  continuation handed out during the call shares them. \<open>chain_trace\<close> records
  each call made: the position of the function in \<^verbatim>\<open>functions\<close> and the arguments
  passed.
\<close>

record ('a, 'w) chain =
  chain_i :: nat
  chain_args :: "'a arg list"
  chain_trace :: "(nat \<times> 'a arg list) list"
  chain_world :: 'w

text \<open>
  \<^verbatim>\<open>runBefore\<close>, called with \<open>arguments\<close>. \<open>call\<close> gives what each function does
  when called. After a function taken for asynchronous \<^verbatim>\<open>runBefore\<close> returns;
  the chain goes on when a continuation is called, which is a new call of
  \<^verbatim>\<open>runBefore\<close> on the same variables. \<^verbatim>\<open>runBefore.apply(this, newArgs)\<close> raises a
  \<^verbatim>\<open>TypeError\<close> when \<^verbatim>\<open>newArgs\<close> is a primitive.
\<close>

function runBefore ::
  "(string \<Rightarrow> nat) \<Rightarrow> (fn \<Rightarrow> 'a arg list \<Rightarrow> 'w \<Rightarrow> 'a completion \<times> 'w) \<Rightarrow> fn list \<Rightarrow> nat
     \<Rightarrow> 'a arg list \<Rightarrow> ('a, 'w) chain \<Rightarrow> error \<times> ('a, 'w) chain + ('a, 'w) chain" where
  "runBefore hostLength call functions superFnLength arguments c =
     (if chain_i c = length functions then Inr c
      else
        let args' = (if length arguments > 0 then arguments else chain_args c) in
        if chain_i c > length functions then Inl (TypeError, c\<lparr>chain_args := args'\<rparr>)
        else
          let f = functions ! chain_i c in
          if fn_length hostLength f > superFnLength then
            (let actual = args' @ [Continuation];
                 (r, w) = call f actual (chain_world c);
                 c' = \<lparr>chain_i = chain_i c + 1, chain_args = args',
                       chain_trace = chain_trace c @ [(chain_i c, actual)], chain_world = w\<rparr>
             in case r of Abrupt e \<Rightarrow> Inl (e, c') | Normal v \<Rightarrow> Inr c')
          else
            (let (r, w) = call f args' (chain_world c);
                 c' = \<lparr>chain_i = chain_i c + 1, chain_args = args',
                       chain_trace = chain_trace c @ [(chain_i c, args')], chain_world = w\<rparr>
             in case r of
                  Abrupt e \<Rightarrow> Inl (e, c')
                | Normal Falsy \<Rightarrow> runBefore hostLength call functions superFnLength args' c'
                | Normal (ArrayLike newArgs) \<Rightarrow>
                    runBefore hostLength call functions superFnLength newArgs c'
                | Normal Primitive \<Rightarrow> Inl (TypeError, c')))"
  by pat_completeness auto
termination
  by (relation "measure (\<lambda>(hostLength, call, functions, superFnLength, arguments, c).
        length functions - chain_i c)") auto

text \<open>The wrapper itself: \<^verbatim>\<open>args\<close> are the arguments of the call, \<^verbatim>\<open>i\<close> is 0.\<close>

definition wrapper ::
  "(string \<Rightarrow> nat) \<Rightarrow> (fn \<Rightarrow> 'a arg list \<Rightarrow> 'w \<Rightarrow> 'a completion \<times> 'w) \<Rightarrow> fn list \<Rightarrow> nat
     \<Rightarrow> 'a arg list \<Rightarrow> 'w \<Rightarrow> error \<times> ('a, 'w) chain + ('a, 'w) chain" where
  "wrapper hostLength call functions superFnLength arguments w =
     runBefore hostLength call functions superFnLength arguments
       \<lparr>chain_i = 0, chain_args = arguments, chain_trace = [], chain_world = w\<rparr>"

text \<open>
  What happens after the wrapper has returned: a function that was called with a
  continuation calls it, with some arguments. Such a call is possible when the
  function at that position has been called and was taken for asynchronous. An
  exception of the resumed chain goes to that caller; the variables keep their
  values.
\<close>

definition holdsContinuation :: "(string \<Rightarrow> nat) \<Rightarrow> fn list \<Rightarrow> nat \<Rightarrow> ('a, 'w) chain \<Rightarrow> nat \<Rightarrow> bool" where
  "holdsContinuation hostLength functions superFnLength c k =
     (k < chain_i c \<and> k < length functions
      \<and> fn_length hostLength (functions ! k) > superFnLength)"

definition state_of :: "error \<times> 's + 's \<Rightarrow> 's" where
  "state_of r = (case r of Inl (e, c) \<Rightarrow> c | Inr c \<Rightarrow> c)"

fun resume ::
  "(string \<Rightarrow> nat) \<Rightarrow> (fn \<Rightarrow> 'a arg list \<Rightarrow> 'w \<Rightarrow> 'a completion \<times> 'w) \<Rightarrow> fn list \<Rightarrow> nat
     \<Rightarrow> (nat \<times> 'a arg list) list \<Rightarrow> ('a, 'w) chain \<Rightarrow> ('a, 'w) chain option" where
  "resume hostLength call functions superFnLength [] c = Some c"
| "resume hostLength call functions superFnLength ((k, arguments) # calls) c =
     (if holdsContinuation hostLength functions superFnLength c k then
        resume hostLength call functions superFnLength calls
          (state_of (runBefore hostLength call functions superFnLength arguments c))
      else None)"

section \<open>edit image at runtime\<close>

text \<open>
  A frame of image data is a grid of pixels; an element of an array of frames
  may be missing (\<^verbatim>\<open>undefined\<close>). What the engine renders from a frame is opaque.
\<close>

type_synonym frame = "nat list list"
type_synonym imageData = "nat list"

text \<open>
  The engine's data, as far as the image functions use it: the three maps of
  drawings (the objects \<^verbatim>\<open>maps\<close> refers to), \<^verbatim>\<open>imageStore.source\<close> and
  \<^verbatim>\<open>imageStore.render\<close>, the own keys of \<^verbatim>\<open>palette\<close>, and one observation: how
  often \<^verbatim>\<open>onReturn(null)\<close> was called.
\<close>

record game =
  sprite :: "drawing object"
  tile :: "drawing object"
  item :: "drawing object"
  source :: "frame option list object"
  render :: "imageData object object object"
  palette :: "string list"
  returned :: nat


subsection \<open>Arrays and numbers\<close>














subsection \<open>getImageData and setImageData\<close>

datatype mapName = Sprite | Tile | Item

fun mapObj :: "mapName \<Rightarrow> game \<Rightarrow> drawing object" where
  "mapObj Sprite g = sprite g"
| "mapObj Tile g = tile g"
| "mapObj Item g = item g"

fun setMapObj :: "mapName \<Rightarrow> drawing object \<Rightarrow> game \<Rightarrow> game" where
  "setMapObj Sprite m g = g\<lparr>sprite := m\<rparr>"
| "setMapObj Tile m g = g\<lparr>tile := m\<rparr>"
| "setMapObj Item m g = g\<lparr>item := m\<rparr>"





section \<open>edit image from dialog\<close>

subsection \<open>Strings\<close>

text \<open>
  Characters are code units below 256; the letters with a lower case are A to Z
  and the capital letters of Latin-1. White space (\<^verbatim>\<open>\s\<close> in a regular
  expression, and what \<^verbatim>\<open>parseInt\<close> skips): tab, line feed, vertical tab, form
  feed, carriage return, space and no-break space.
\<close>

definition isWhiteSpace :: "char \<Rightarrow> bool" where
  "isWhiteSpace c = (of_char c \<in> {9, 10, 11, 12, 13, 32, 160 :: nat})"





text \<open>\<^verbatim>\<open>str.split(/,\s?/)\<close>: a separator is a comma with the white space character
  after it, if there is one.\<close>

definition afterComma :: "string \<Rightarrow> string" where
  "afterComma cs = (case cs of [] \<Rightarrow> [] | d # ds \<Rightarrow> if isWhiteSpace d then ds else cs)"

function split :: "string \<Rightarrow> string list" where
  "split [] = [[]]"
| "split (c # cs) =
     (if c = CHR '','' then [] # split (afterComma cs)
      else (case split cs of [] \<Rightarrow> [[c]] | p # ps \<Rightarrow> (c # p) # ps))"
  by pat_completeness auto
termination
  by (relation "measure length") (auto simp: afterComma_def split: list.splits)






subsection \<open>The map of maps\<close>


subsection \<open>Messages\<close>






subsection \<open>editImage and editPalette\<close>







section \<open>Notions used in the properties\<close>

subsection \<open>Outcomes\<close>

text \<open>The exception of an outcome, if any; \<open>state_of\<close> gives its state.\<close>

definition thrown :: "error \<times> 's + 's \<Rightarrow> error option" where
  "thrown r = (case r of Inl (e, s) \<Rightarrow> Some e | Inr s \<Rightarrow> None)"

subsection \<open>inject\<close>

text \<open>
  What the description of \<^verbatim>\<open>inject\<close> asks of the patched text: the injected code
  stands right after the first occurrence of the search string, and nothing else
  changes.
\<close>

definition inserted_after :: "string \<Rightarrow> string \<Rightarrow> string \<Rightarrow> string" where
  "inserted_after code searchString codeToInject =
     (case indexOf code searchString of
        None \<Rightarrow> code
      | Some p \<Rightarrow> take (p + length searchString) code @ codeToInject
                   @ drop (p + length searchString) code)"

subsection \<open>The hook wrapper\<close>

text \<open>The arguments in force after \<^verbatim>\<open>if (arguments.length > 0) args = ...\<close>, and the
  variables after one more function has been called.\<close>

definition passed :: "'a arg list \<Rightarrow> ('a, 'w) chain \<Rightarrow> 'a arg list" where
  "passed arguments c = (if length arguments > 0 then arguments else chain_args c)"

definition stepped :: "('a, 'w) chain \<Rightarrow> 'a arg list \<Rightarrow> 'a arg list \<Rightarrow> 'w \<Rightarrow> ('a, 'w) chain" where
  "stepped c args' actual w = \<lparr>chain_i = chain_i c + 1, chain_args = args',
       chain_trace = chain_trace c @ [(chain_i c, actual)], chain_world = w\<rparr>"

text \<open>The arguments a synchronous call passes onward, by the value it returned.\<close>

definition onward :: "'a retval \<Rightarrow> 'a arg list \<Rightarrow> 'a arg list" where
  "onward v args' = (case v of ArrayLike newArgs \<Rightarrow> if newArgs = [] then args' else newArgs | _ \<Rightarrow> args')"

text \<open>
  How the variables of the chain can change in one call of \<^verbatim>\<open>runBefore\<close>: the
  counter grows and stays within the list, the trace grows by the positions
  passed, and every function called but the last was run synchronously.
\<close>

definition shape :: "(string \<Rightarrow> nat) \<Rightarrow> fn list \<Rightarrow> nat \<Rightarrow> ('a, 'w) chain \<Rightarrow> ('a, 'w) chain \<Rightarrow> bool" where
  "shape hl fs n c c' \<longleftrightarrow>
     chain_i c \<le> chain_i c' \<and> chain_i c' \<le> length fs
     \<and> map fst (chain_trace c') = map fst (chain_trace c) @ [chain_i c..<chain_i c']
     \<and> (\<forall>k. chain_i c \<le> k \<and> Suc k < chain_i c' \<longrightarrow> \<not> fn_length hl (fs ! k) > n)
     \<and> (chain_i c < length fs \<longrightarrow> chain_i c < chain_i c')"

text \<open>No function throws, and no function run synchronously returns a truthy
  primitive.\<close>

definition wellBehaved :: "(string \<Rightarrow> nat) \<Rightarrow> (fn \<Rightarrow> 'a arg list \<Rightarrow> 'w \<Rightarrow> 'a completion \<times> 'w) \<Rightarrow> fn list \<Rightarrow> nat \<Rightarrow> bool" where
  "wellBehaved hl call fs n \<longleftrightarrow>
     (\<forall>k<length fs. \<forall>a w.
        (case fst (call (fs ! k) a w) of
           Abrupt e \<Rightarrow> False
         | Normal v \<Rightarrow> fn_length hl (fs ! k) > n \<or> v \<noteq> Primitive))"

text \<open>The chain is at its end, or the function called last was given a
  continuation.\<close>

definition settled :: "(string \<Rightarrow> nat) \<Rightarrow> fn list \<Rightarrow> nat \<Rightarrow> ('a, 'w) chain \<Rightarrow> bool" where
  "settled hl fs n c \<longleftrightarrow>
     chain_i c = length fs \<or> (0 < chain_i c \<and> fn_length hl (fs ! (chain_i c - 1)) > n)"

text \<open>Every function that was given a continuation and is not in \<open>used\<close> is the
  one called last.\<close>

definition pending :: "(string \<Rightarrow> nat) \<Rightarrow> fn list \<Rightarrow> nat \<Rightarrow> nat set \<Rightarrow> ('a, 'w) chain \<Rightarrow> bool" where
  "pending hl fs n used c \<longleftrightarrow>
     (\<forall>k<chain_i c. fn_length hl (fs ! k) > n \<and> k \<notin> used \<longrightarrow> Suc k = chain_i c)"

subsection \<open>Game start\<close>



text \<open>An example: a page with the given scripts, before this script has run, and
  the lengths of the engine's functions.\<close>

definition page :: "string list \<Rightarrow> bitsy" where
  "page scripts =
     \<lparr>kitsy = None,
      globals = [''startExportedGame'' \<mapsto> Host ''startExportedGame'',
                 ''load_game'' \<mapsto> Host ''load_game'', ''onExitDialog'' \<mapsto> Host ''onExitDialog'',
                 ''clearGameData'' \<mapsto> Host ''clearGameData'',
                 ''Script'' \<mapsto> Host ''Script'', ''Dialog'' \<mapsto> Host ''Dialog''],
      document = \<lparr>scriptTags = scripts, currentScript = None\<rparr>,
      reinits = 0, started = []\<rparr>"


subsection \<open>Deferred dialog tags\<close>


subsection \<open>The image functions\<close>










section \<open>Properties of the utilities\<close>

lemma thrown_simps [simp]: "thrown (Inl (e, s)) = Some e" "thrown (Inr s) = None"
  by (simp_all add: thrown_def)

subsection \<open>Assigning a property\<close>

lemma map_of_insertIndexed:
  "map_of obj k = None \<Longrightarrow> map_of (insertIndexed n k v obj) = (map_of obj)(k \<mapsto> v)"
proof (induction obj)
  case Nil
  show ?case by simp
next
  case (Cons p obj)
  obtain k' v' where p: "p = (k', v')" by (cases p)
  with Cons.prems have ne: "k' \<noteq> k" and "map_of obj k = None" by (auto split: if_splits)
  with Cons.IH p show ?case by (auto simp: fun_upd_twist split: option.splits)
qed

lemma map_of_setProperty: "map_of (setProperty k v obj) = (map_of obj)(k \<mapsto> v)"
  by (auto simp: setProperty_def hasOwnProperty_def update_conv' map_of_insertIndexed map_add_def
      fun_eq_iff split: option.splits)

lemma get_property_setProperty:
  "get_property (setProperty k v obj) k' = (if k' = k then Own v else get_property obj k')"
  by (simp add: get_property_def map_of_setProperty)

lemma setProperty_fresh:
  "map_of obj k = None \<Longrightarrow> arrayIndex k = None \<Longrightarrow> setProperty k v obj = obj @ [(k, v)]"
  by (simp add: setProperty_def hasOwnProperty_def)

subsection \<open>Searching and replacing\<close>

lemma indexOf_None_iff: "indexOf t s = None \<longleftrightarrow> \<not> sublist s t"
  by (induction t) (auto simp: sublist_Cons_right)

lemma indexOf_Some:
  "indexOf t s = Some p \<Longrightarrow> t = take p t @ s @ drop (p + length s) t \<and> p + length s \<le> length t"
proof (induction t arbitrary: p)
  case Nil
  then show ?case by (auto split: if_splits)
next
  case (Cons c cs)
  show ?case
  proof (cases "prefix s (c # cs)")
    case True
    with Cons.prems have "p = 0" by simp
    with True show ?thesis
      using prefix_length_le[of s "c # cs"] by (auto simp: prefix_def)
  next
    case False
    with Cons.prems obtain q where q: "indexOf cs s = Some q" "p = Suc q" by auto
    from Cons.IH[OF q(1)] q(2) show ?thesis by simp
  qed
qed

lemma indexOf_first: "indexOf t s = Some p \<Longrightarrow> q < p \<Longrightarrow> \<not> prefix s (drop q t)"
proof (induction t arbitrary: p q)
  case Nil
  then show ?case by (auto split: if_splits)
next
  case (Cons c cs)
  show ?case
  proof (cases "prefix s (c # cs)")
    case True
    with Cons.prems show ?thesis by simp
  next
    case False
    with Cons.prems obtain r where r: "indexOf cs s = Some r" "p = Suc r" by auto
    show ?thesis
    proof (cases q)
      case 0
      with False show ?thesis by simp
    next
      case (Suc q')
      with Cons.prems r have "q' < r" by simp
      from Cons.IH[OF r(1) this] Suc show ?thesis by simp
    qed
  qed
qed

lemma getSubstitution_plain: "CHR ''$'' \<notin> set r \<Longrightarrow> getSubstitution m s p r = r"
  by (induction m s p r rule: getSubstitution.induct) auto

lemma replace_plain:
  "CHR ''$'' \<notin> set (s @ c) \<Longrightarrow> replace code s (s @ c) = inserted_after code s c"
proof (cases "indexOf code s")
  case None
  then show ?thesis by (simp add: replace_def inserted_after_def)
next
  case (Some p)
  assume "CHR ''$'' \<notin> set (s @ c)"
  then have g: "getSubstitution s code p (s @ c) = s @ c" by (rule getSubstitution_plain)
  from indexOf_Some[OF Some] have "take (p + length s) code = take p code @ s"
    by (metis append.assoc append_eq_conv_conj length_append length_take min.absorb2
        add_leD1)
  with Some g show ?thesis by (simp add: replace_def inserted_after_def)
qed

lemma findScriptTag_None_iff:
  "findScriptTag s cur i tags = None \<longleftrightarrow>
     (\<forall>j<length tags. \<not> (indexOf (tags ! j) s \<noteq> None \<and> cur \<noteq> Some (i + j)))"
proof (induction tags arbitrary: i)
  case Nil
  show ?case by simp
next
  case (Cons t ts)
  show ?case
    apply (simp add: Let_def Cons.IH del: not_None_eq)
    apply (auto simp: less_Suc_eq_0_disj simp del: not_None_eq)
    done
qed

lemma findScriptTag_Some:
  "findScriptTag s cur i tags = Some (k, code) \<Longrightarrow>
     \<exists>j. k = i + j \<and> j < length tags \<and> tags ! j = code \<and> indexOf code s \<noteq> None
       \<and> cur \<noteq> Some k
       \<and> (\<forall>j'<j. \<not> (indexOf (tags ! j') s \<noteq> None \<and> cur \<noteq> Some (i + j')))"
proof (induction tags arbitrary: i)
  case Nil
  then show ?case by simp
next
  case (Cons t ts)
  show ?case
  proof (cases "indexOf t s \<noteq> None \<and> cur \<noteq> Some i")
    case True
    with Cons.prems have "k = i" "code = t" by (auto simp: Let_def)
    with True show ?thesis by (intro exI[of _ 0]) simp
  next
    case False
    with Cons.prems have "findScriptTag s cur (Suc i) ts = Some (k, code)"
      by (auto simp: Let_def)
    from Cons.IH[OF this] obtain j where j: "k = Suc i + j" "j < length ts" "ts ! j = code"
      "indexOf code s \<noteq> None" "cur \<noteq> Some k"
      "\<forall>j'<j. \<not> (indexOf (ts ! j') s \<noteq> None \<and> cur \<noteq> Some (Suc i + j'))" by blast
    have "\<forall>j'<Suc j. \<not> (indexOf ((t # ts) ! j') s \<noteq> None \<and> cur \<noteq> Some (i + j'))"
    proof (intro allI impI)
      fix j' assume "j' < Suc j"
      show "\<not> (indexOf ((t # ts) ! j') s \<noteq> None \<and> cur \<noteq> Some (i + j'))"
      proof (cases j')
        case 0
        with False show ?thesis by simp
      next
        case (Suc m)
        with \<open>j' < Suc j\<close> have "m < j" by simp
        with j(6) Suc show ?thesis by simp
      qed
    qed
    with j show ?thesis by (intro exI[of _ "Suc j"]) simp
  qed
qed


subsection \<open>inject: when it throws\<close>

lemma inject_Inl: "inject s args doc = Inl (e, d) \<Longrightarrow> e = Throw (notFound s) \<and> d = doc"
  by (auto simp: inject_def Let_def split: option.splits if_splits)

text \<open>
  For a search string that is not empty, \<^verbatim>\<open>inject\<close> throws exactly when no script
  tag other than the current one contains it.
\<close>

lemma inject_throws_iff:
  assumes "s \<noteq> []"
  shows "(\<exists>e d. inject s args doc = Inl (e, d)) \<longleftrightarrow>
         \<not> (\<exists>j<length (scriptTags doc).
               sublist s (scriptTags doc ! j) \<and> currentScript doc \<noteq> Some j)"
proof (cases "findScriptTag s (currentScript doc) 0 (scriptTags doc)")
  case None
  then show ?thesis
    using findScriptTag_None_iff[of s "currentScript doc" 0 "scriptTags doc"]
    by (auto simp: inject_def indexOf_None_iff)
next
  case (Some r)
  obtain k code where r: "r = (k, code)" by (cases r)
  from findScriptTag_Some[OF Some[unfolded r]]
  have k: "k < length (scriptTags doc)" "scriptTags doc ! k = code"
    "indexOf code s \<noteq> None" "currentScript doc \<noteq> Some k"
    by auto
  from k(3) assms have "code \<noteq> []" by (auto simp: indexOf_None_iff)
  with Some r k show ?thesis by (auto simp: inject_def indexOf_None_iff)
qed


subsection \<open>inject: the patched text\<close>

text \<open>
  When neither the search string nor the injected code holds a dollar sign, the
  matched tag gets the code right after the first occurrence of the search string
  and every other tag is left as it was.
\<close>

lemma inject_inserts:
  assumes "CHR ''$'' \<notin> set (s @ join (flatten (Arr args)) [])"
    and "inject s args doc = Inr doc'"
  shows "\<exists>j<length (scriptTags doc).
           sublist s (scriptTags doc ! j) \<and> currentScript doc \<noteq> Some j
         \<and> (\<forall>j'<j. \<not> (sublist s (scriptTags doc ! j') \<and> currentScript doc \<noteq> Some j'))
         \<and> doc' = doc\<lparr>scriptTags := (scriptTags doc)
               [j := inserted_after (scriptTags doc ! j) s (join (flatten (Arr args)) [])]\<rparr>"
proof -
  from assms(2) obtain k code where
    f: "findScriptTag s (currentScript doc) 0 (scriptTags doc) = Some (k, code)"
    and d: "doc' = doc\<lparr>scriptTags := (scriptTags doc)
               [k := replace code s (s @ join (flatten (Arr args)) [])]\<rparr>"
    by (auto simp: inject_def Let_def split: option.splits if_splits)
  from findScriptTag_Some[OF f]
  have k: "k < length (scriptTags doc)" "scriptTags doc ! k = code"
    "indexOf code s \<noteq> None" "currentScript doc \<noteq> Some k"
    "\<forall>j'<k. \<not> (indexOf (scriptTags doc ! j') s \<noteq> None \<and> currentScript doc \<noteq> Some j')"
    by auto
  from d k(2) replace_plain[OF assms(1), of code]
  have "doc' = doc\<lparr>scriptTags := (scriptTags doc)
               [k := inserted_after (scriptTags doc ! k) s (join (flatten (Arr args)) [])]\<rparr>"
    by simp
  with k show ?thesis
    by (intro exI[of _ k]) (auto simp: indexOf_None_iff)
qed

text \<open>
  C7. The claim: the patched text is the original text with the injected code
  inserted right after the first occurrence of the search string, every other
  character unchanged. \<^verbatim>\<open>code.replace(searchString, searchString + codeToInject)\<close>
  reads the dollar patterns of its replacement text: injecting the statement
  \<^verbatim>\<open>$$ = 1;\<close> after \<^verbatim>\<open>var a;\<close> leaves \<^verbatim>\<open>$ = 1;\<close> in the script, not the
  statement that was passed.
\<close>

theorem inject_dollar_pattern:
  "inject ''var a;'' [Str ''$$ = 1;''] \<lparr>scriptTags = [''var a; c();''], currentScript = None\<rparr>
     = Inr \<lparr>scriptTags = [''var a;$ = 1; c();''], currentScript = None\<rparr>
   \<and> inserted_after ''var a; c();'' ''var a;'' ''$$ = 1;'' = ''var a;$$ = 1; c();''"
  by code_simp

subsection \<open>getImage\<close>

lemma getImage_own:
  "\<not> hasOwnProperty m ''hasOwnProperty'' \<Longrightarrow> hasOwnProperty m nm \<Longrightarrow>
   getImage nm m = Inr (map_of m nm)"
  by (simp add: getImage_def getImage_id_def toPropertyKey_def)

lemma find_Some_first:
  "List.find P xs = Some x \<Longrightarrow> \<exists>i<length xs. xs ! i = x \<and> P x \<and> (\<forall>j<i. \<not> P (xs ! j))"
  by (auto simp: find_Some_iff)

text \<open>
  Resolution by name: the key is not an own property, and \<open>e\<close> is the first key in
  enumeration order whose entry has the name.
\<close>

lemma getImage_by_name:
  assumes "\<not> hasOwnProperty m ''hasOwnProperty''" and "\<not> hasOwnProperty m nm"
    and "i < length m" and "fst (m ! i) = e" and "map_of m e = Some d" and "name d = Some nm"
    and "\<forall>j<i. \<forall>d'. map_of m (fst (m ! j)) = Some d' \<longrightarrow> name d' \<noteq> Some nm"
  shows "getImage nm m = Inr (Some d)"
proof -
  let ?P = "\<lambda>e. case map_of m e of Some d \<Rightarrow> name d = Some nm | None \<Rightarrow> False"
  have "List.find ?P (map fst m) = Some e"
    unfolding find_Some_iff
    using assms(3-7) by (intro exI[of _ i]) (auto split: option.splits)
  with assms(1,2,5) show ?thesis
    by (simp add: getImage_def getImage_id_def Object_keys_def toPropertyKey_def)
qed

text \<open>No entry matches by key or by name, and no entry has the key \<^verbatim>\<open>undefined\<close>.\<close>

lemma getImage_no_match:
  assumes "\<not> hasOwnProperty m ''hasOwnProperty''" and "\<not> hasOwnProperty m nm"
    and "\<forall>(k, d) \<in> set m. name d \<noteq> Some nm"
    and "\<not> hasOwnProperty m ''undefined''"
  shows "getImage nm m = Inr None"
proof -
  let ?P = "\<lambda>e. case map_of m e of Some d \<Rightarrow> name d = Some nm | None \<Rightarrow> False"
  have "\<not> ?P e" for e
    using assms(3) by (auto split: option.splits dest: map_of_SomeD)
  then have "List.find ?P (map fst m) = None" by (simp add: find_None_iff)
  with assms(1,2,4) show ?thesis
    by (simp add: getImage_def getImage_id_def Object_keys_def toPropertyKey_def
        hasOwnProperty_def)
qed

text \<open>
  C10. The claim: \<^verbatim>\<open>getImage\<close> returns the entry stored under the key when the key
  is an own property of the map, else the first entry whose name equals the key,
  and \<^verbatim>\<open>undefined\<close> when no entry matches. When nothing matches, \<^verbatim>\<open>id\<close> is
  \<^verbatim>\<open>undefined\<close> and \<^verbatim>\<open>map[id]\<close> reads the property named \<^verbatim>\<open>"undefined"\<close>: in a
  map with an entry of that id, looking up \<^verbatim>\<open>zzz\<close>, which is no id and no name,
  returns that entry.
\<close>

theorem getImage_undefined_key:
  "getImage ''zzz''
     [(''undefined'', \<lparr>name = Some ''cat'', drw = ''SPR_1'', col = 2,
         animation = \<lparr>frameCount = 1, isAnimated = False, frameIndex = 0\<rparr>\<rparr>)]
   = Inr (Some \<lparr>name = Some ''cat'', drw = ''SPR_1'', col = 2,
         animation = \<lparr>frameCount = 1, isAnimated = False, frameIndex = 0\<rparr>\<rparr>)"
  by (simp add: getImage_def getImage_id_def hasOwnProperty_def Object_keys_def
      toPropertyKey_def)


section \<open>Properties of the hook wrapper\<close>

subsection \<open>One call of runBefore\<close>

declare runBefore.simps [simp del]

lemma runBefore_done: "chain_i c = length fs \<Longrightarrow> runBefore hl call fs n a c = Inr c"
  by (simp add: runBefore.simps)

lemma runBefore_async:
  assumes "chain_i c < length fs" "fn_length hl (fs ! chain_i c) > n"
    and "call (fs ! chain_i c) (passed a c @ [Continuation]) (chain_world c) = (r, w)"
  shows "runBefore hl call fs n a c =
         (case r of Abrupt e \<Rightarrow> Inl (e, stepped c (passed a c) (passed a c @ [Continuation]) w)
                  | Normal v \<Rightarrow> Inr (stepped c (passed a c) (passed a c @ [Continuation]) w))"
  using assms unfolding passed_def stepped_def
  by (subst runBefore.simps) (auto simp: Let_def split: completion.splits retval.splits)

lemma runBefore_sync:
  assumes "chain_i c < length fs" "\<not> fn_length hl (fs ! chain_i c) > n"
    and "call (fs ! chain_i c) (passed a c) (chain_world c) = (r, w)"
  shows "runBefore hl call fs n a c =
         (case r of
            Abrupt e \<Rightarrow> Inl (e, stepped c (passed a c) (passed a c) w)
          | Normal Falsy \<Rightarrow> runBefore hl call fs n (passed a c) (stepped c (passed a c) (passed a c) w)
          | Normal (ArrayLike newArgs) \<Rightarrow> runBefore hl call fs n newArgs (stepped c (passed a c) (passed a c) w)
          | Normal Primitive \<Rightarrow> Inl (TypeError, stepped c (passed a c) (passed a c) w))"
  using assms unfolding passed_def stepped_def
  by (subst runBefore.simps) (auto simp: Let_def split: completion.splits retval.splits)

lemma stepped_simps [simp]:
  "chain_i (stepped c x y w) = Suc (chain_i c)"
  "chain_trace (stepped c x y w) = chain_trace c @ [(chain_i c, y)]"
  "chain_args (stepped c x y w) = x"
  "chain_world (stepped c x y w) = w"
  by (simp_all add: stepped_def)

lemma state_of_simps [simp]: "state_of (Inl (e, c)) = c" "state_of (Inr c) = c"
  by (simp_all add: state_of_def)

lemma shape_step:
  assumes "chain_i c < length fs" "\<not> fn_length hl (fs ! chain_i c) > n"
    and "shape hl fs n (stepped c x y w) c'"
  shows "shape hl fs n c c'"
proof -
  from assms(3) have le: "Suc (chain_i c) \<le> chain_i c'" by (simp add: shape_def)
  then have "[chain_i c..<chain_i c'] = chain_i c # [Suc (chain_i c)..<chain_i c']"
    by (simp add: upt_conv_Cons)
  moreover have "\<not> fn_length hl (fs ! k) > n" if "chain_i c \<le> k" "Suc k < chain_i c'" for k
  proof (cases "k = chain_i c")
    case True with assms(2) show ?thesis by simp
  next
    case False
    with that have "Suc (chain_i c) \<le> k" by simp
    with assms(3) that(2) show ?thesis by (simp add: shape_def)
  qed
  ultimately show ?thesis using assms(1,3) le by (auto simp: shape_def)
qed

lemma shape_one: "chain_i c < length fs \<Longrightarrow> shape hl fs n c (stepped c x y w)"
  by (auto simp: shape_def)

lemma runBefore_shape:
  "chain_i c \<le> length fs \<Longrightarrow> shape hl fs n c (state_of (runBefore hl call fs n a c))"
proof (induction "length fs - chain_i c" arbitrary: c a)
  case 0
  then have "chain_i c = length fs" by simp
  then show ?case by (simp add: runBefore_done shape_def)
next
  case (Suc m)
  then have lt: "chain_i c < length fs" by simp
  show ?case
  proof (cases "fn_length hl (fs ! chain_i c) > n")
    case True
    obtain r w where "call (fs ! chain_i c) (passed a c @ [Continuation]) (chain_world c) = (r, w)"
      by force
    from runBefore_async[where call=call, OF lt True this] lt show ?thesis
      by (auto simp: shape_one split: completion.splits)
  next
    case False
    obtain r w where rw: "call (fs ! chain_i c) (passed a c) (chain_world c) = (r, w)"
      by force
    let ?c1 = "stepped c (passed a c) (passed a c) w"
    have IH: "shape hl fs n ?c1 (state_of (runBefore hl call fs n a' ?c1))" for a'
      using Suc.hyps(2) lt by (intro Suc.hyps(1)) auto
    have st: "shape hl fs n c (state_of (runBefore hl call fs n a' ?c1))" for a'
      using shape_step[OF lt False IH] .
    show ?thesis
      unfolding runBefore_sync[where call=call, OF lt False rw]
      using lt by (auto simp: shape_one st split: completion.splits retval.splits)
  qed
qed

lemma runBefore_settled:
  assumes wb: "wellBehaved hl call fs n"
  shows "chain_i c < length fs \<Longrightarrow>
         (\<exists>c'. runBefore hl call fs n a c = Inr c' \<and> settled hl fs n c')"
proof (induction "length fs - chain_i c" arbitrary: c a)
  case 0
  then show ?case by simp
next
  case (Suc m)
  then have lt: "chain_i c < length fs" by simp
  show ?case
  proof (cases "fn_length hl (fs ! chain_i c) > n")
    case True
    obtain r w where rw: "call (fs ! chain_i c) (passed a c @ [Continuation]) (chain_world c) = (r, w)"
      by force
    from wb lt have "case fst (call (fs ! chain_i c) (passed a c @ [Continuation]) (chain_world c)) of
        Abrupt e \<Rightarrow> False | Normal v \<Rightarrow> True"
      unfolding wellBehaved_def by (auto split: completion.splits)
    with rw obtain v where "r = Normal v" by (auto split: completion.splits)
    with runBefore_async[where call=call, OF lt True rw] True show ?thesis
      by (simp add: settled_def)
  next
    case False
    obtain r w where rw: "call (fs ! chain_i c) (passed a c) (chain_world c) = (r, w)"
      by force
    let ?c1 = "stepped c (passed a c) (passed a c) w"
    from wb lt False have "case fst (call (fs ! chain_i c) (passed a c) (chain_world c)) of
        Abrupt e \<Rightarrow> False | Normal v \<Rightarrow> v \<noteq> Primitive"
      unfolding wellBehaved_def by (auto split: completion.splits)
    with rw have r: "r = Normal Falsy \<or> (\<exists>xs. r = Normal (ArrayLike xs))"
      by (cases r; cases "case r of Normal v \<Rightarrow> v") auto
    have next_ok: "\<exists>c'. runBefore hl call fs n a' ?c1 = Inr c' \<and> settled hl fs n c'" for a'
    proof (cases "chain_i ?c1 = length fs")
      case True
      then show ?thesis by (simp add: runBefore_done settled_def)
    next
      case False
      with lt have "chain_i ?c1 < length fs" by simp
      moreover from Suc.hyps(2) have "m = length fs - chain_i ?c1" by simp
      ultimately show ?thesis using Suc.hyps(1) by blast
    qed
    from r show ?thesis
      unfolding runBefore_sync[where call=call, OF lt False rw]
      using next_ok by auto
  qed
qed

lemma upt_join: "i \<le> j \<Longrightarrow> j \<le> k \<Longrightarrow> [i..<j] @ [j..<k] = [i..<k]"
  using upt_add_eq_append[of i j "k - j"] by simp

lemma resume_shape:
  "chain_i c \<le> length fs \<Longrightarrow> resume hl call fs n calls c = Some c' \<Longrightarrow>
   chain_i c \<le> chain_i c' \<and> chain_i c' \<le> length fs
   \<and> map fst (chain_trace c') = map fst (chain_trace c) @ [chain_i c..<chain_i c']"
proof (induction calls arbitrary: c)
  case Nil
  then show ?case by simp
next
  case (Cons x calls)
  obtain k a where x: "x = (k, a)" by (cases x)
  let ?c1 = "state_of (runBefore hl call fs n a c)"
  from Cons.prems(2) x have r: "resume hl call fs n calls ?c1 = Some c'"
    by (simp split: if_splits)
  from runBefore_shape[OF Cons.prems(1), of hl n call a]
  have s: "chain_i c \<le> chain_i ?c1" "chain_i ?c1 \<le> length fs"
    "map fst (chain_trace ?c1) = map fst (chain_trace c) @ [chain_i c..<chain_i ?c1]"
    by (simp_all add: shape_def)
  from Cons.IH[OF s(2) r] s show ?case
    by (auto simp: upt_join)
qed

lemma resume_settled:
  assumes wb: "wellBehaved hl call fs n"
  shows "settled hl fs n c \<Longrightarrow> chain_i c \<le> length fs \<Longrightarrow>
         resume hl call fs n calls c = Some c' \<Longrightarrow> settled hl fs n c'"
proof (induction calls arbitrary: c)
  case Nil
  then show ?case by simp
next
  case (Cons x calls)
  obtain k a where x: "x = (k, a)" by (cases x)
  let ?c1 = "state_of (runBefore hl call fs n a c)"
  from Cons.prems(3) x have r: "resume hl call fs n calls ?c1 = Some c'"
    by (simp split: if_splits)
  have "settled hl fs n ?c1"
  proof (cases "chain_i c = length fs")
    case True
    with Cons.prems(1) show ?thesis by (simp add: runBefore_done)
  next
    case False
    with Cons.prems(2) have "chain_i c < length fs" by simp
    from runBefore_settled[OF wb this, of a] show ?thesis by auto
  qed
  moreover from runBefore_shape[OF Cons.prems(2), of hl n call a]
  have "chain_i ?c1 \<le> length fs" by (simp add: shape_def)
  ultimately show ?case using Cons.IH r by blast
qed

lemma resume_passes:
  "chain_i c \<le> length fs \<Longrightarrow> resume hl call fs n calls c = Some c' \<Longrightarrow>
   k \<in> fst ` set calls \<Longrightarrow> chain_i c' = length fs \<or> Suc k < chain_i c'"
proof (induction calls arbitrary: c)
  case Nil
  then show ?case by simp
next
  case (Cons x calls)
  obtain k' a where x: "x = (k', a)" by (cases x)
  let ?c1 = "state_of (runBefore hl call fs n a c)"
  from Cons.prems(2) x have r: "resume hl call fs n calls ?c1 = Some c'"
    and h: "holdsContinuation hl fs n c k'"
    by (simp_all split: if_splits)
  from runBefore_shape[OF Cons.prems(1), of hl n call a]
  have s: "chain_i c \<le> chain_i ?c1" "chain_i ?c1 \<le> length fs"
    "chain_i c < length fs \<longrightarrow> chain_i c < chain_i ?c1"
    by (simp_all add: shape_def)
  from resume_shape[OF s(2) r] have m: "chain_i ?c1 \<le> chain_i c'" "chain_i c' \<le> length fs"
    by simp_all
  show ?case
  proof (cases "k = k'")
    case True
    with h have "k < chain_i c" by (simp add: holdsContinuation_def)
    with s m Cons.prems(1) show ?thesis by (cases "chain_i c = length fs") auto
  next
    case False
    with Cons.prems(3) x have "k \<in> fst ` set calls" by auto
    from Cons.IH[OF s(2) r this] show ?thesis .
  qed
qed

subsection \<open>All functions run, in order\<close>

text \<open>
  When no function throws, no function run synchronously returns a truthy
  primitive, and every function that was called with a continuation has called
  it, the wrapper has called every function of the list once, in the order of the
  list.
\<close>

lemma wrapper_runs_all:
  assumes wb: "wellBehaved hl call fs n"
    and res: "resume hl call fs n calls (state_of (wrapper hl call fs n arguments w)) = Some c"
    and inv: "\<forall>k<chain_i c. fn_length hl (fs ! k) > n \<longrightarrow> k \<in> fst ` set calls"
  shows "(\<exists>c0. wrapper hl call fs n arguments w = Inr c0)
         \<and> chain_i c = length fs \<and> map fst (chain_trace c) = [0..<length fs]"
proof -
  let ?init = "\<lparr>chain_i = 0, chain_args = arguments, chain_trace = [], chain_world = w\<rparr>"
  let ?c0 = "state_of (wrapper hl call fs n arguments w)"
  have w0: "(\<exists>c0. wrapper hl call fs n arguments w = Inr c0) \<and> settled hl fs n ?c0"
  proof (cases "fs = []")
    case True
    then show ?thesis by (simp add: wrapper_def runBefore_done settled_def)
  next
    case False
    then have "chain_i ?init < length fs" by simp
    from runBefore_settled[OF wb this, of arguments] show ?thesis
      by (auto simp: wrapper_def)
  qed
  have sh: "shape hl fs n ?init ?c0"
    unfolding wrapper_def by (rule runBefore_shape) simp
  then have le0: "chain_i ?c0 \<le> length fs" and tr0: "map fst (chain_trace ?c0) = [0..<chain_i ?c0]"
    by (simp_all add: shape_def)
  from resume_settled[OF wb _ le0 res] w0 have fin: "settled hl fs n c" by blast
  from resume_shape[OF le0 res] tr0
  have tr: "map fst (chain_trace c) = [0..<chain_i c]" and le: "chain_i c \<le> length fs"
    by (simp_all add: upt_join)
  have "chain_i c = length fs"
  proof (rule ccontr)
    assume ne: "chain_i c \<noteq> length fs"
    with fin have pos: "0 < chain_i c" and as: "fn_length hl (fs ! (chain_i c - 1)) > n"
      by (simp_all add: settled_def)
    with inv have "chain_i c - 1 \<in> fst ` set calls" by simp
    from resume_passes[OF le0 res this] ne pos show False by simp
  qed
  with tr w0 show ?thesis by simp
qed

lemma shape_stops:
  assumes "shape hl fs n c c'" "chain_i c \<le> j" "fn_length hl (fs ! j) > n"
  shows "chain_i c' \<le> Suc j"
  using assms unfolding shape_def by (meson not_less)

lemma shape_pending:
  assumes "shape hl fs n c c'" "pending hl fs n used c" "k < chain_i c" "Suc k = chain_i c"
  shows "pending hl fs n (insert k used) c'"
  unfolding pending_def
proof (intro allI impI)
  fix k' assume k': "k' < chain_i c'" "fn_length hl (fs ! k') > n \<and> k' \<notin> insert k used"
  show "Suc k' = chain_i c'"
  proof (cases "k' < chain_i c")
    case True
    with assms(2) k'(2) have "Suc k' = chain_i c" by (simp add: pending_def)
    with assms(4) k'(2) show ?thesis by simp
  next
    case False
    then have "chain_i c \<le> k'" by simp
    with assms(1) k'(2) have "\<not> Suc k' < chain_i c'" unfolding shape_def by blast
    with k'(1) show ?thesis by simp
  qed
qed

lemma resume_stall:
  assumes j: "fn_length hl (fs ! j) > n"
  shows "chain_i c \<le> Suc j \<Longrightarrow> chain_i c \<le> length fs \<Longrightarrow> pending hl fs n used c \<Longrightarrow>
         distinct (map fst calls) \<Longrightarrow> used \<inter> fst ` set calls = {} \<Longrightarrow> j \<notin> fst ` set calls \<Longrightarrow>
         resume hl call fs n calls c = Some c' \<Longrightarrow> chain_i c' \<le> Suc j"
proof (induction calls arbitrary: c used)
  case Nil
  then show ?case by simp
next
  case (Cons x calls)
  obtain k a where x: "x = (k, a)" by (cases x)
  let ?c1 = "state_of (runBefore hl call fs n a c)"
  from Cons.prems(7) x have r: "resume hl call fs n calls ?c1 = Some c'"
    and h: "holdsContinuation hl fs n c k"
    by (simp_all split: if_splits)
  from h have k: "k < chain_i c" "fn_length hl (fs ! k) > n" by (simp_all add: holdsContinuation_def)
  from Cons.prems(5) x have "k \<notin> used" by auto
  with Cons.prems(3) k have sk: "Suc k = chain_i c" by (simp add: pending_def)
  from Cons.prems(6) x have "k \<noteq> j" by auto
  with sk Cons.prems(1) have cj: "chain_i c \<le> j" by simp
  have sh: "shape hl fs n c ?c1" by (rule runBefore_shape[OF Cons.prems(2)])
  have 1: "chain_i ?c1 \<le> Suc j" by (rule shape_stops[OF sh cj j])
  have 2: "chain_i ?c1 \<le> length fs" using sh by (simp add: shape_def)
  have 3: "pending hl fs n (insert k used) ?c1" by (rule shape_pending[OF sh Cons.prems(3) k(1) sk])
  from Cons.prems(4) x have 4: "distinct (map fst calls)" and "k \<notin> fst ` set calls" by auto
  with Cons.prems(5) have 5: "insert k used \<inter> fst ` set calls = {}" by auto
  from Cons.prems(6) have 6: "j \<notin> fst ` set calls" by auto
  from Cons.IH[OF 1 2 3 4 5 6 r] show ?case .
qed

subsection \<open>A callback that never calls its continuation\<close>

text \<open>
  C3, as amended. The function at position \<open>j\<close> is taken for asynchronous and
  never calls its continuation, and no function calls its continuation more than
  once. Then no function after position \<open>j\<close> is ever called: the original function
  and the after-callbacks when \<open>j\<close> is a before-callback.
\<close>

theorem stalled_chain:
  assumes "j < length fs" and "fn_length hl (fs ! j) > n"
    and "resume hl call fs n calls (state_of (wrapper hl call fs n arguments w)) = Some c"
    and "distinct (map fst calls)" and "j \<notin> fst ` set calls"
  shows "chain_i c \<le> Suc j \<and> (\<forall>(k, a) \<in> set (chain_trace c). k \<le> j)"
proof -
  let ?init = "\<lparr>chain_i = 0, chain_args = arguments, chain_trace = [], chain_world = w\<rparr>"
  let ?c0 = "state_of (wrapper hl call fs n arguments w)"
  have sh: "shape hl fs n ?init ?c0"
    unfolding wrapper_def by (rule runBefore_shape) simp
  then have le0: "chain_i ?c0 \<le> length fs" and tr0: "map fst (chain_trace ?c0) = [0..<chain_i ?c0]"
    by (simp_all add: shape_def)
  have 1: "chain_i ?c0 \<le> Suc j" by (rule shape_stops[OF sh _ assms(2)]) simp
  have 3: "pending hl fs n {} ?c0"
    unfolding pending_def using sh unfolding shape_def
    by (metis Suc_lessI chain.select_convs(1) zero_le)
  from resume_stall[OF assms(2) 1 le0 3 assms(4) _ assms(5) assms(3)]
  have "chain_i c \<le> Suc j" by simp
  moreover from resume_shape[OF le0 assms(3)] tr0
  have "map fst (chain_trace c) = [0..<chain_i c]" by (simp add: upt_join)
  ultimately have le: "chain_i c \<le> Suc j" and tr: "fst ` set (chain_trace c) = {0..<chain_i c}"
    by (simp_all flip: set_map)
  have "k \<le> j" if "(k, a) \<in> set (chain_trace c)" for k a
  proof -
    from that have "k \<in> fst ` set (chain_trace c)" by force
    with tr le show ?thesis by simp
  qed
  with le show ?thesis by blast
qed

theorem stalled_chain_witness:
  "map_option chain_trace
     (resume (\<lambda>h. if h = ''original'' then 0 else 1) (\<lambda>f a w. (Normal Falsy, w))
        [Host ''first'', Host ''second'', Host ''original''] 0 [(0, [])]
        (state_of (wrapper (\<lambda>h. if h = ''original'' then 0 else 1) (\<lambda>f a w. (Normal Falsy, w))
           [Host ''first'', Host ''second'', Host ''original''] 0 ([] :: nat arg list) ())))
   = Some [(0, [Continuation]), (1, [Continuation])]
   \<and> (1::nat) \<le> 1"
  using stalled_chain[where j = 1 and fs = "[Host ''first'', Host ''second'', Host ''original'']"
      and hl = "\<lambda>h. if h = ''original'' then 0 else 1" and n = 0
      and call = "\<lambda>f a w. (Normal Falsy, w)" and calls = "[(0, [])]"
      and arguments = "[] :: nat arg list" and w = "()"]
  by (simp add: wrapper_def runBefore.simps holdsContinuation_def Let_def)

text \<open>
  C3 as stated fails: the first callback calls its continuation twice. The first
  call runs the second callback, which never calls its continuation; the second
  call goes on from the shared counter and runs the original function.
\<close>

theorem second_call_passes_stalled_callback:
  "fn_length (\<lambda>h. if h = ''original'' then 0 else 1)
      ([Host ''first'', Host ''second'', Host ''original''] ! 1) > 0
   \<and> 1 \<notin> fst ` set [(0, []), (0::nat, [] :: nat arg list)]
   \<and> map_option chain_trace
        (resume (\<lambda>h. if h = ''original'' then 0 else 1) (\<lambda>f a w. (Normal Falsy, w))
           [Host ''first'', Host ''second'', Host ''original''] 0 [(0, []), (0, [])]
           (state_of (wrapper (\<lambda>h. if h = ''original'' then 0 else 1) (\<lambda>f a w. (Normal Falsy, w))
              [Host ''first'', Host ''second'', Host ''original''] 0 ([] :: nat arg list) ())))
       = Some [(0, [Continuation]), (1, [Continuation]), (2, [])]"
  by (simp add: wrapper_def runBefore.simps holdsContinuation_def Let_def)

subsection \<open>Synchronous and asynchronous callbacks\<close>

lemma runBefore_trace_prefix:
  "prefix (chain_trace c) (chain_trace (state_of (runBefore hl call fs n a c)))"
proof (induction "length fs - chain_i c" arbitrary: c a)
  case 0
  then show ?case by (subst runBefore.simps) (simp add: Let_def)
next
  case (Suc m)
  then have lt: "chain_i c < length fs" by simp
  show ?case
  proof (cases "fn_length hl (fs ! chain_i c) > n")
    case True
    obtain r w where "call (fs ! chain_i c) (passed a c @ [Continuation]) (chain_world c) = (r, w)"
      by force
    from runBefore_async[where call=call, OF lt True this] show ?thesis
      by (auto split: completion.splits)
  next
    case False
    obtain r w where rw: "call (fs ! chain_i c) (passed a c) (chain_world c) = (r, w)"
      by force
    let ?c1 = "stepped c (passed a c) (passed a c) w"
    have "prefix (chain_trace ?c1) (chain_trace (state_of (runBefore hl call fs n a' ?c1)))" for a'
      using Suc.hyps(2) by (intro Suc.hyps(1)) simp
    then have "prefix (chain_trace c) (chain_trace (state_of (runBefore hl call fs n a' ?c1)))" for a'
      by (meson append_prefixD stepped_simps(2)[THEN arg_cong[where f="\<lambda>x. prefix x _", THEN iffD1]])
    then show ?thesis
      unfolding runBefore_sync[where call=call, OF lt False rw]
      by (auto split: completion.splits retval.splits)
  qed
qed

lemma runBefore_first_call:
  assumes lt: "chain_i c < length fs"
  shows "\<exists>rest. chain_trace (state_of (runBefore hl call fs n a c)) =
           chain_trace c @ (chain_i c, if fn_length hl (fs ! chain_i c) > n
                                       then passed a c @ [Continuation] else passed a c) # rest"
proof (cases "fn_length hl (fs ! chain_i c) > n")
  case True
  obtain r w where "call (fs ! chain_i c) (passed a c @ [Continuation]) (chain_world c) = (r, w)"
    by force
  from runBefore_async[where call=call, OF lt True this] True show ?thesis
    by (auto split: completion.splits)
next
  case False
  obtain r w where rw: "call (fs ! chain_i c) (passed a c) (chain_world c) = (r, w)"
    by force
  let ?c1 = "stepped c (passed a c) (passed a c) w"
  have "\<exists>rest. chain_trace (state_of (runBefore hl call fs n a' ?c1)) =
           chain_trace c @ (chain_i c, passed a c) # rest" for a'
    using runBefore_trace_prefix[of ?c1 hl call fs n a'] by (auto simp: prefix_def)
  then show ?thesis
    unfolding runBefore_sync[where call=call, OF lt False rw]
    using False by (auto split: completion.splits retval.splits)
qed

lemma passed_idem [simp]: "passed (passed a c) (stepped c (passed a c) y w) = passed a c"
  by (simp add: passed_def)

text \<open>
  C2, as amended. A function is taken for asynchronous exactly when its length is
  greater than the original function's. It is then called with the arguments in
  force followed by the continuation, and \<^verbatim>\<open>runBefore\<close> returns: the counter is
  one further and nothing else was called (the chain goes on in \<open>resume\<close>, when a
  continuation is called). Any other function is called with the arguments in
  force, and when it returns a falsy value or an object the next function is
  called at once, with the elements of the returned object when there are any and
  with the unchanged arguments otherwise.
\<close>

theorem runBefore_callback:
  assumes lt: "chain_i c < length fs"
  shows "(fn_length hl (fs ! chain_i c) > n \<longrightarrow>
           state_of (runBefore hl call fs n a c) =
             stepped c (passed a c) (passed a c @ [Continuation])
               (snd (call (fs ! chain_i c) (passed a c @ [Continuation]) (chain_world c))))
    \<and> (\<not> fn_length hl (fs ! chain_i c) > n \<and> Suc (chain_i c) < length fs
         \<and> call (fs ! chain_i c) (passed a c) (chain_world c) = (Normal v, w) \<and> v \<noteq> Primitive \<longrightarrow>
           take (length (chain_trace c) + 2) (chain_trace (state_of (runBefore hl call fs n a c))) =
             chain_trace c @ [(chain_i c, passed a c),
               (Suc (chain_i c),
                if fn_length hl (fs ! Suc (chain_i c)) > n then onward v (passed a c) @ [Continuation]
                else onward v (passed a c))])"
proof (intro conjI impI)
  assume as: "fn_length hl (fs ! chain_i c) > n"
  obtain r w' where rw: "call (fs ! chain_i c) (passed a c @ [Continuation]) (chain_world c) = (r, w')"
    by force
  from runBefore_async[where call=call, OF lt as rw] rw
  show "state_of (runBefore hl call fs n a c) =
             stepped c (passed a c) (passed a c @ [Continuation])
               (snd (call (fs ! chain_i c) (passed a c @ [Continuation]) (chain_world c)))"
    by (auto split: completion.splits)
next
  assume h: "\<not> fn_length hl (fs ! chain_i c) > n \<and> Suc (chain_i c) < length fs
         \<and> call (fs ! chain_i c) (passed a c) (chain_world c) = (Normal v, w) \<and> v \<noteq> Primitive"
  let ?c1 = "stepped c (passed a c) (passed a c) w"
  let ?a' = "case v of ArrayLike newArgs \<Rightarrow> newArgs | _ \<Rightarrow> passed a c"
  from h have sy: "\<not> fn_length hl (fs ! chain_i c) > n" and lt1: "chain_i ?c1 < length fs"
    and rw: "call (fs ! chain_i c) (passed a c) (chain_world c) = (Normal v, w)" and v: "v \<noteq> Primitive"
    by simp_all
  from v have eq: "runBefore hl call fs n a c = runBefore hl call fs n ?a' ?c1"
    unfolding runBefore_sync[where call=call, OF lt sy rw] by (cases v) simp_all
  from v have p: "passed ?a' ?c1 = onward v (passed a c)"
    by (cases v) (auto simp: passed_def onward_def)
  from runBefore_first_call[OF lt1, where hl=hl and n=n and call=call and a="?a'"] p
  obtain rest where "chain_trace (state_of (runBefore hl call fs n ?a' ?c1)) =
      (chain_trace c @ [(chain_i c, passed a c)]) @
        (Suc (chain_i c), if fn_length hl (fs ! Suc (chain_i c)) > n
                          then onward v (passed a c) @ [Continuation] else onward v (passed a c)) # rest"
    by auto
  with eq show "take (length (chain_trace c) + 2) (chain_trace (state_of (runBefore hl call fs n a c))) =
             chain_trace c @ [(chain_i c, passed a c),
               (Suc (chain_i c),
                if fn_length hl (fs ! Suc (chain_i c)) > n then onward v (passed a c) @ [Continuation]
                else onward v (passed a c))]"
    by simp
qed

theorem runBefore_callback_witness:
  "take 2 (chain_trace (state_of
      (runBefore (\<lambda>h. if h = ''done'' then 2 else 1)
         (\<lambda>f a w. (if f = Host ''upper'' then Normal (ArrayLike [Arg ''HI'']) else Normal Falsy, w))
         [Host ''upper'', Host ''done'', Host ''show_text''] 1 [Arg ''hi'']
         \<lparr>chain_i = 0, chain_args = [Arg ''hi''], chain_trace = [], chain_world = ()\<rparr>)))
   = [(0, [Arg ''hi'']), (1, [Arg ''HI'', Continuation])]"
  using runBefore_callback[where
      c = "\<lparr>chain_i = 0, chain_args = [Arg ''hi''], chain_trace = [], chain_world = ()\<rparr>"
      and fs = "[Host ''upper'', Host ''done'', Host ''show_text'']"
      and hl = "\<lambda>h. if h = ''done'' then 2 else 1" and n = 1
      and call = "\<lambda>f a w. (if f = Host ''upper'' then Normal (ArrayLike [Arg ''HI''])
                              else Normal Falsy, w)"
      and a = "[Arg ''hi'']" and v = "ArrayLike [Arg ''HI'']" and w = "()"]
  by (simp add: passed_def onward_def numeral_2_eq_2)

text \<open>
  C2 as stated fails: a callback run synchronously returns the empty array, which
  is truthy. The original function is called with the old argument, not with the
  (empty) returned list.
\<close>

theorem empty_array_keeps_arguments:
  "map_option chain_trace
     (resume (\<lambda>h. 1)
        (\<lambda>f a w. (if f = Host ''before'' then Normal (ArrayLike []) else Normal Falsy, w))
        [Host ''before'', Host ''original''] 1 []
        (state_of (wrapper (\<lambda>h. 1)
           (\<lambda>f a w. (if f = Host ''before'' then Normal (ArrayLike []) else Normal Falsy, w))
           [Host ''before'', Host ''original''] 1 [Arg (7::nat)] ())))
   = Some [(0, [Arg 7]), (1, [Arg 7])]
   \<and> [Arg (7::nat)] \<noteq> []"
  by (simp add: wrapper_def runBefore.simps Let_def)

subsection \<open>Registration order and the installed wrapper\<close>


lemma applyHook_installs:
  assumes "kitsy b = Some k" and "globals b functionName = Some superFn"
  shows "applyHook hl functionName b =
         Inr (b\<lparr>globals := (globals b)(functionName \<mapsto>
               HookWrapper (fn_length hl superFn)
                 (queued (queuedBeforeScripts k) functionName @ [superFn]
                    @ queued (queuedAfterScripts k) functionName))\<rparr>)"
  using assms by (simp add: applyHook_def)

text \<open>
  C1. The claim: a call of the wrapped function runs the before-callbacks in
  registration order, then the original function, then the after-callbacks,
  provided every asynchronous callback calls its continuation. The toolkit's own
  example \<^verbatim>\<open>before('show_text', function run(text) { return text.toUpperCase(); })\<close>
  registers a callback that returns a string. The wrapper is installed at
  \<^verbatim>\<open>show_text\<close> with the callback before the original function; called with a
  text, it calls the callback, \<^verbatim>\<open>runBefore.apply(this, newArgs)\<close> raises a
  \<^verbatim>\<open>TypeError\<close> on the string, and the original function is never called.
\<close>

theorem wrapper_primitive_return_throws:
  "(case before ''show_text'' (Host ''run'')
          \<lparr>kitsy = None, globals = [''show_text'' \<mapsto> Host ''show_text''],
           document = \<lparr>scriptTags = [], currentScript = None\<rparr>, reinits = 0, started = []\<rparr> of
      Inl x \<Rightarrow> None
    | Inr b1 \<Rightarrow> (case applyAllHooks (\<lambda>h. 1) b1 of
                   Inl x \<Rightarrow> None
                 | Inr b2 \<Rightarrow> globals b2 ''show_text''))
   = Some (HookWrapper 1 [Host ''run'', Host ''show_text''])
   \<and> wrapper (\<lambda>h. 1) (\<lambda>f a w. (if f = Host ''run'' then Normal Primitive else Normal Falsy, w))
        [Host ''run'', Host ''show_text''] 1 [Arg ''hi''] ()
     = Inl (TypeError, \<lparr>chain_i = 1, chain_args = [Arg ''hi''],
                         chain_trace = [(0, [Arg ''hi''])], chain_world = ()\<rparr>)"
  by (simp add: before_def kitsyInit_def enqueue_def get_property_def applyAllHooks_def unique_def
      Object_keys_def applyHook_def queued_def Object_prototype_def Let_def
      setProperty_def hasOwnProperty_def arrayIndex_def wrapper_def runBefore.simps)

section \<open>Properties of the registry\<close>

subsection \<open>kitsyInit\<close>

lemma kitsyInit_initialized: "kitsy b = Some k \<Longrightarrow> kitsyInit b = (k, b)"
  by (simp add: kitsyInit_def)

lemma kitsyInit_kitsy: "kitsy (snd (kitsyInit b)) = Some (fst (kitsyInit b))"
  by (simp add: kitsyInit_def Let_def split: option.splits)

lemma kitsyInit_idem: "kitsyInit (snd (kitsyInit b)) = kitsyInit b"
  by (simp add: kitsyInit_def Let_def split: option.splits)

lemma addDialogFunction_duplicate:
  assumes "kitsy b = Some k" and "dialogFunctions k = Some dfs" and "map_of dfs tag = Some g"
  shows "addDialogFunction tag f b = Inl (Error (alreadyExists tag), b)"
  using assms by (simp add: addDialogFunction_def kitsyInit_def get_property_def)

lemma addDialogFunction_fresh:
  assumes "kitsy b = Some k" and "dialogFunctions k = Some dfs" and "map_of dfs tag = None"
    and "tag \<notin> set Object_prototype"
    and "enqueue (queuedBeforeScripts k) ''load_game'' (LoadGameRewrite tag) = Inr q"
  shows "addDialogFunction tag f b =
         Inr (b\<lparr>kitsy := Some (k\<lparr>queuedBeforeScripts := q,
                                  dialogFunctions := Some (setProperty tag f dfs)\<rparr>)\<rparr>)"
  using assms
  by (simp add: addDialogFunction_def kitsyInit_def get_property_def before_def)

text \<open>
  C5. The claim: registering a dialog function under a tag that is already in use
  throws and leaves the registry unchanged (lemma \<open>addDialogFunction_duplicate\<close>);
  registering under a fresh name succeeds and adds exactly that entry. The test
  \<^verbatim>\<open>kitsy.dialogFunctions[tag]\<close> also finds what the registry object inherits: on a
  page where no dialog function has been registered, registering the tag
  \<^verbatim>\<open>constructor\<close> throws \<^verbatim>\<open>The dialog function "constructor" already exists.\<close>
  and the registry stays empty.
\<close>

theorem addDialogFunction_inherited_name:
  "thrown (addDialogFunction ''constructor'' EditImage (page [])) =
     Some (Error (alreadyExists ''constructor''))
   \<and> map_option dialogFunctions (kitsy (state_of (addDialogFunction ''constructor'' EditImage (page []))))
     = Some (Some [])"
  by (simp add: addDialogFunction_def kitsyInit_def get_property_def Object_prototype_def Let_def
      page_def)

subsection \<open>Game start\<close>



lemma doInjects_kitsy: "kitsy (state_of (doInjects b)) = kitsy b"
  by (auto simp: doInjects_def reinitEngine_def split: option.splits sum.splits)










section \<open>Properties of the image functions\<close>

subsection \<open>Lookups after an update\<close>







subsection \<open>An edit of a ready store does not throw\<close>












lemma mapObj_setMapObj [simp]: "mapObj m (setMapObj m al g) = al"
  by (cases m) simp_all

lemma setMapObj_fields [simp]:
  "source (setMapObj m al g) = source g" "render (setMapObj m al g) = render g"
  "palette (setMapObj m al g) = palette g" "returned (setMapObj m al g) = returned g"
  by (cases m; simp)+








subsection \<open>When the image functions throw\<close>







section \<open>Properties of the deferred dialog tags\<close>









end
